theory Spec2Isabelle
  imports Main
begin

section \<open>JavaScript values\<close>

text \<open>
  The values that travel through the broker are what \<^verbatim>\<open>JSON.parse\<close> produces, plus
  \<^verbatim>\<open>undefined\<close> for a field that is absent. Numbers are modelled by integers: the only
  test the code makes on a number is \<^verbatim>\<open>type === 0\<close>. An object is the list of its own
  properties (keys distinct, as in a parsed object).
\<close>

datatype jsval =
    JUndefined
  | JNull
  | JBool bool
  | JNum int
  | JStr string
  | JArr "jsval list"
  | JObj "(string \<times> jsval) list"

text \<open>Reading a property, as a destructuring pattern does: a missing property, and any
  property of a primitive, reads as \<^verbatim>\<open>undefined\<close>.\<close>

fun get_prop :: "jsval \<Rightarrow> string \<Rightarrow> jsval" where
  "get_prop (JObj kvs) k = (case map_of kvs k of Some v \<Rightarrow> v | None \<Rightarrow> JUndefined)"
| "get_prop _ k = JUndefined"

text \<open>A destructuring pattern \<^verbatim>\<open>const { a, b } = v\<close> throws a TypeError exactly when
  \<^verbatim>\<open>v\<close> is \<^verbatim>\<open>undefined\<close> or \<^verbatim>\<open>null\<close>.\<close>

definition destructurable :: "jsval \<Rightarrow> bool" where
  "destructurable v = (v \<noteq> JUndefined \<and> v \<noteq> JNull)"

text \<open>\<^verbatim>\<open>Array.prototype.indexOf\<close>: the first index holding the element, or -1.\<close>

fun indexOf :: "'a list \<Rightarrow> 'a \<Rightarrow> int" where
  "indexOf [] x = - 1"
| "indexOf (y # ys) x =
     (if y = x then 0 else (let i = indexOf ys x in if i = - 1 then - 1 else i + 1))"

text \<open>\<^verbatim>\<open>xs.splice(start, deleteCount)\<close> for a start inside the array: the array without
  the deleted run.\<close>

definition array_splice :: "nat \<Rightarrow> nat \<Rightarrow> 'a list \<Rightarrow> 'a list" where
  "array_splice start deleteCount xs = take start xs @ drop (start + deleteCount) xs"

section \<open>The dispatcher (server.js): worker pool and request queue\<close>

text \<open>The message the dispatcher posts to a worker: \<^verbatim>\<open>{ type, request, data }\<close>.\<close>

record job =
  type :: jsval
  request :: jsval
  data :: jsval

text \<open>The message a worker posts back: \<^verbatim>\<open>{ result, error }\<close>.\<close>

record completion =
  result :: string
  error :: "string option"

text \<open>
  A worker as the dispatcher sees it: its \<^verbatim>\<open>busy\<close> flag (absent, hence falsy, on a new
  worker) and the messages posted to it that it has not answered yet. A worker is
  identified by its position in the pool: a JavaScript \<^verbatim>\<open>Set\<close> iterates in insertion
  order, and the pool never changes after start-up.
\<close>

record worker =
  busy :: bool
  inbox :: "job list"

type_synonym conn = nat

text \<open>
  The module-level state of server.js: the pool, the queue and the channel map (a
  \<^verbatim>\<open>Map\<close>, in insertion order), with two logs of effects: the texts sent to
  connections and the \<^verbatim>\<open>postMessage\<close> calls made on workers, each in the order made.
\<close>

record server =
  workerPool :: "worker list"
  requestQueue :: "job list"
  channels :: "(string \<times> conn list) list"
  sent :: "(conn \<times> string) list"
  posted :: "(nat \<times> job) list"

definition workerPoolSize :: nat where
  "workerPoolSize = 3"

definition createWorkerPool :: "worker list" where
  "createWorkerPool = replicate workerPoolSize \<lparr>busy = False, inbox = []\<rparr>"

definition initial_server :: server where
  "initial_server =
     \<lparr>workerPool = createWorkerPool, requestQueue = [],
      channels = [(''backend'', []), (''frontend'', [])], sent = [], posted = []\<rparr>"

text \<open>\<^verbatim>\<open>[...workerPool].find(worker => !worker.busy)\<close>: the first worker, in pool order,
  that is not busy; \<open>None\<close> stands for \<^verbatim>\<open>undefined\<close>.\<close>

fun finAvailableWorker :: "worker list \<Rightarrow> nat option" where
  "finAvailableWorker [] = None"
| "finAvailableWorker (w # ws) =
     (if \<not> busy w then Some 0 else map_option Suc (finAvailableWorker ws))"

definition assignWorkToWorker :: "job \<Rightarrow> server \<Rightarrow> server" where
  "assignWorkToWorker j s =
     (case finAvailableWorker (workerPool s) of
        Some i \<Rightarrow>
          s\<lparr>workerPool := (workerPool s)
               [i := (workerPool s ! i)\<lparr>inbox := inbox (workerPool s ! i) @ [j], busy := True\<rparr>],
            posted := posted s @ [(i, j)]\<rparr>
      | None \<Rightarrow> s\<lparr>requestQueue := requestQueue s @ [j]\<rparr>)"

text \<open>The listener \<^verbatim>\<open>handleWorkerMessages\<close> installs on worker \<open>i\<close>: it does not read
  the message (it only logs it).\<close>

definition handleWorkerMessages :: "nat \<Rightarrow> completion \<Rightarrow> server \<Rightarrow> server" where
  "handleWorkerMessages i message s =
     (let s1 = s\<lparr>workerPool := (workerPool s)[i := (workerPool s ! i)\<lparr>busy := False\<rparr>]\<rparr>
      in case requestQueue s1 of
           [] \<Rightarrow> s1
         | j # q \<Rightarrow> assignWorkToWorker j (s1\<lparr>requestQueue := q\<rparr>))"

section \<open>The channel registry (server.js)\<close>

text \<open>\<^verbatim>\<open>channelSubscribers.push(clientWebSocket)\<close> on the array stored under
  \<open>channel\<close>: the array is updated in place, the map keeps its keys and their order.\<close>

definition push_subscriber :: "string \<Rightarrow> conn \<Rightarrow> (string \<times> conn list) list \<Rightarrow> (string \<times> conn list) list" where
  "push_subscriber channel c chs =
     map (\<lambda>(name, subscribers). if name = channel then (name, subscribers @ [c]) else (name, subscribers)) chs"

text \<open>The subscribers stored under a topic name (empty for a name that is not a key).\<close>

definition subscribers_of :: "string \<Rightarrow> server \<Rightarrow> conn list" where
  "subscribers_of channel s = (case map_of (channels s) channel of Some subs \<Rightarrow> subs | None \<Rightarrow> [])"

text \<open>
  The \<^verbatim>\<open>message\<close> listener of a connection. Its argument is the outcome of
  \<^verbatim>\<open>JSON.parse(message)\<close>: \<open>None\<close> when parsing throws. Every exception of the body is
  caught and logged, which leaves the state as it was when the exception was thrown:
  a SyntaxError of the parser, or the TypeError of destructuring \<^verbatim>\<open>null\<close>.
  \<^verbatim>\<open>channels.has(channel)\<close> holds only for a string that is a key of the map.
\<close>

definition on_message :: "conn \<Rightarrow> jsval option \<Rightarrow> server \<Rightarrow> server" where
  "on_message clientWebSocket parsed s =
     (case parsed of
        None \<Rightarrow> s
      | Some v \<Rightarrow>
          if \<not> destructurable v then s
          else
            (case get_prop v ''channel'' of
               JStr channel \<Rightarrow>
                 (case map_of (channels s) channel of
                    None \<Rightarrow> s
                  | Some channelSubscribers \<Rightarrow>
                      let s1 =
                        (if clientWebSocket \<notin> set channelSubscribers
                         then s\<lparr>channels := push_subscriber channel clientWebSocket (channels s),
                                sent := sent s @
                                  [(clientWebSocket, ''You are connected to the channel '' @ channel)]\<rparr>
                         else s)
                      in if channel = ''backend''
                         then assignWorkToWorker
                                \<lparr>type = get_prop v ''message_type'', request = get_prop v ''request'',
                                 data = get_prop v ''data''\<rparr> s1
                         else s1)
             | _ \<Rightarrow> s))"

text \<open>
  \<^verbatim>\<open>cleanupClient\<close>: the loop over \<^verbatim>\<open>channels.values()\<close>. At the first subscriber array
  that holds the connection, the entry is spliced out and the loop is left by
  \<^verbatim>\<open>break\<close>: the arrays after it are not visited.
\<close>

fun cleanupClient_loop :: "conn \<Rightarrow> (string \<times> conn list) list \<Rightarrow> (string \<times> conn list) list" where
  "cleanupClient_loop clientWebSocket [] = []"
| "cleanupClient_loop clientWebSocket ((name, subscribers) # rest) =
     (let index = indexOf subscribers clientWebSocket
      in if index \<noteq> - 1
         then (name, array_splice (nat index) 1 subscribers) # rest
         else (name, subscribers) # cleanupClient_loop clientWebSocket rest)"

definition cleanupClient :: "conn \<Rightarrow> server \<Rightarrow> server" where
  "cleanupClient clientWebSocket s = s\<lparr>channels := cleanupClient_loop clientWebSocket (channels s)\<rparr>"

section \<open>The connection supervisor (server.js, handleSocketConnection)\<close>

text \<open>
  The variables \<^verbatim>\<open>handleSocketConnection\<close> closes over for one connection: the liveness
  flag and the interval timer (armed or cleared), with the log of the calls the
  listeners of this connection make, in order.
\<close>

datatype call = Ping | ClearInterval | Terminate | CleanupClient

record closure =
  isAlive :: bool
  heartbeat :: bool
  calls :: "call list"


definition handleSocketConnection :: closure where
  "handleSocketConnection = \<lparr>isAlive = True, heartbeat = True, calls = []\<rparr>"

text \<open>The callback of the interval timer.\<close>

definition heartbeat_tick :: "conn \<Rightarrow> closure \<times> server \<Rightarrow> closure \<times> server" where
  "heartbeat_tick clientWebSocket st =
     (case st of (cl, s) \<Rightarrow>
        if \<not> isAlive cl
        then (cl\<lparr>heartbeat := False, calls := calls cl @ [ClearInterval, Terminate, CleanupClient]\<rparr>,
              cleanupClient clientWebSocket s)
        else (cl\<lparr>isAlive := False, calls := calls cl @ [Ping]\<rparr>, s))"

definition on_pong :: "closure \<times> server \<Rightarrow> closure \<times> server" where
  "on_pong st = (case st of (cl, s) \<Rightarrow> (cl\<lparr>isAlive := True\<rparr>, s))"

definition on_close :: "conn \<Rightarrow> closure \<times> server \<Rightarrow> closure \<times> server" where
  "on_close clientWebSocket st =
     (case st of (cl, s) \<Rightarrow> (cl\<lparr>calls := calls cl @ [CleanupClient]\<rparr>, cleanupClient clientWebSocket s))"

text \<open>
  What can happen to a connection: the timer fires (only while it is armed), a pong
  arrives, a frame arrives, the transport reports its close. An execution is a list of
  such events; \<open>None\<close> marks a list in which the timer fires after it was cleared.
  The transport reports the close of a connection that its client closed, and also of
  one that \<^verbatim>\<open>terminate()\<close> closed by force: in an execution, the close event of a
  terminated connection follows the timer callback that terminated it.
\<close>

datatype conn_event = Tick | Pong | Frame "jsval option" | Close

fun conn_step :: "conn \<Rightarrow> conn_event \<Rightarrow> closure \<times> server \<Rightarrow> (closure \<times> server) option" where
  "conn_step c Tick st = (if heartbeat (fst st) then Some (heartbeat_tick c st) else None)"
| "conn_step c Pong st = Some (on_pong st)"
| "conn_step c (Frame parsed) st = Some (fst st, on_message c parsed (snd st))"
| "conn_step c Close st = Some (on_close c st)"

fun conn_run :: "conn \<Rightarrow> conn_event list \<Rightarrow> closure \<times> server \<Rightarrow> (closure \<times> server) option" where
  "conn_run c [] st = Some st"
| "conn_run c (e # es) st = (case conn_step c e st of None \<Rightarrow> None | Some st' \<Rightarrow> conn_run c es st')"

section \<open>Executions of the dispatcher\<close>

text \<open>
  The dispatcher sees two events: a job is submitted, or worker \<open>i\<close> posts a completion
  message. A worker posts a completion only for a message it received, so the second
  event needs a message in the worker's inbox; the worker is done with that message
  when it posts.
\<close>

datatype event = Submit job | Completion nat completion

definition finish_job :: "nat \<Rightarrow> server \<Rightarrow> server" where
  "finish_job i s =
     s\<lparr>workerPool := (workerPool s)[i := (workerPool s ! i)\<lparr>inbox := tl (inbox (workerPool s ! i))\<rparr>]\<rparr>"

fun step :: "event \<Rightarrow> server \<Rightarrow> server option" where
  "step (Submit j) s = Some (assignWorkToWorker j s)"
| "step (Completion i message) s =
     (if i < length (workerPool s) \<and> inbox (workerPool s ! i) \<noteq> []
      then Some (handleWorkerMessages i message (finish_job i s))
      else None)"

fun run :: "event list \<Rightarrow> server \<Rightarrow> server option" where
  "run [] s = Some s"
| "run (e # es) s = (case step e s of None \<Rightarrow> None | Some s' \<Rightarrow> run es s')"

fun submitted :: "event list \<Rightarrow> job list" where
  "submitted [] = []"
| "submitted (Submit j # es) = j # submitted es"
| "submitted (Completion i message # es) = submitted es"

fun completed :: "event list \<Rightarrow> nat" where
  "completed [] = 0"
| "completed (Submit j # es) = completed es"
| "completed (Completion i message # es) = Suc (completed es)"

definition busy_count :: "server \<Rightarrow> nat" where
  "busy_count s = length (filter busy (workerPool s))"

section \<open>The worker (worker/db_worker.js)\<close>

text \<open>
  Modelled from the spec: the backend collaborator, module \<^verbatim>\<open>../db\<close> (the connection
  pool and the connections it hands out), is not among the sources. It is a test
  double: two tables, and a plan of faults that says for each successive call to the
  backend (\<^verbatim>\<open>getConnection\<close> or \<^verbatim>\<open>query\<close>) whether it fails and with which message;
  calls past the end of the plan succeed. \<^verbatim>\<open>release\<close> does not fail.
\<close>

record backend =
  cluster_records :: "jsval list"
  sensor_records :: "(jsval \<times> jsval \<times> jsval) list"
  faults :: "string option list"

datatype query =
    SelectCluster jsval
  | InsertCluster jsval
  | InsertSensor jsval jsval jsval

text \<open>What a worker does that the outside can see, in order: a handle is checked out of
  the pool, a query is issued on it, it is released, a message is posted to the
  dispatcher, a promise is rejected with nobody to handle it.\<close>

datatype wevent =
    GetConnection
  | Query query
  | Release
  | PostMessage completion
  | UnhandledRejection string

definition next_fault :: "backend \<Rightarrow> string option \<times> backend" where
  "next_fault b = (case faults b of [] \<Rightarrow> (None, b) | f # fs \<Rightarrow> (f, b\<lparr>faults := fs\<rparr>))"

text \<open>Modelled from the spec: \<^verbatim>\<open>pool.getConnection()\<close> of the missing module;
  \<open>Inl\<close> is the message of the error it rejects with.\<close>

definition getConnection :: "backend \<Rightarrow> (string + unit) \<times> backend" where
  "getConnection b =
     (case next_fault b of (Some m, b') \<Rightarrow> (Inl m, b') | (None, b') \<Rightarrow> (Inr (), b'))"

text \<open>Modelled from the spec: \<^verbatim>\<open>connection.query(sql, params)\<close> of the missing module,
  for the three statements the worker issues: the rows of the select (those whose
  cluster identifier is the parameter), no rows for an insert, which adds its row.\<close>

definition run_query :: "query \<Rightarrow> backend \<Rightarrow> (string + jsval list) \<times> backend" where
  "run_query q b =
     (case next_fault b of
        (Some m, b') \<Rightarrow> (Inl m, b')
      | (None, b') \<Rightarrow>
          (case q of
             SelectCluster cluster_id \<Rightarrow> (Inr (filter (\<lambda>r. r = cluster_id) (cluster_records b')), b')
           | InsertCluster cluster_id \<Rightarrow>
               (Inr [], b'\<lparr>cluster_records := cluster_records b' @ [cluster_id]\<rparr>)
           | InsertSensor cluster_id temperature humidity \<Rightarrow>
               (Inr [], b'\<lparr>sensor_records := sensor_records b' @ [(cluster_id, temperature, humidity)]\<rparr>)))"

definition postMessageToParent :: "string \<Rightarrow> string option \<Rightarrow> wevent" where
  "postMessageToParent r e = PostMessage \<lparr>result = r, error = e\<rparr>"

text \<open>
  \<^verbatim>\<open>handleInsertRequest\<close> is an \<^verbatim>\<open>async\<close> function that its caller does not await. It
  runs up to its first \<^verbatim>\<open>await\<close>, where its first query has been issued; the caller
  then goes on, and the rest of the function runs after the caller has returned.
  \<open>handleInsertRequest_query\<close> is the query issued before the first \<^verbatim>\<open>await\<close>;
  \<open>handleInsertRequest_resume\<close> is the rest, from the outcome of that query (\<open>kind\<close>
  is the parameter \<^verbatim>\<open>type\<close>). An error thrown in the function rejects the promise it
  returned, which nobody holds: it is an unhandled rejection, and
  \<^verbatim>\<open>postMessageToParent('success')\<close> is not reached.
\<close>

definition handleInsertRequest_query :: "jsval \<Rightarrow> jsval \<Rightarrow> jsval \<Rightarrow> jsval \<Rightarrow> query" where
  "handleInsertRequest_query kind cluster_id temperature humidity =
     (if kind = JNum 0 then SelectCluster cluster_id
      else InsertSensor cluster_id temperature humidity)"

definition handleInsertRequest_resume ::
    "jsval \<Rightarrow> jsval \<Rightarrow> (string + jsval list) \<Rightarrow> backend \<Rightarrow> wevent list \<times> backend" where
  "handleInsertRequest_resume kind cluster_id outcome b =
     (case outcome of
        Inl m \<Rightarrow> ([UnhandledRejection m], b)
      | Inr rows \<Rightarrow>
          if kind = JNum 0 \<and> length rows = 0
          then (case run_query (InsertCluster cluster_id) b of
                  (Inl m, b') \<Rightarrow> ([Query (InsertCluster cluster_id), UnhandledRejection m], b')
                | (Inr _, b') \<Rightarrow>
                    ([Query (InsertCluster cluster_id), postMessageToParent ''success'' None], b'))
          else ([postMessageToParent ''success'' None], b))"

text \<open>The message of the TypeError thrown when \<^verbatim>\<open>data\<close> cannot be destructured, as the
  engine words it: the names of the property and of the variable stand in single
  quotes (character 0x27), and the text ends with what the value is,
  \<^verbatim>\<open>undefined\<close> or \<^verbatim>\<open>null\<close>.\<close>

definition destructure_error :: "jsval \<Rightarrow> string" where
  "destructure_error v =
     ''Cannot destructure property '' @ [CHR 0x27] @ ''cluster_id'' @ [CHR 0x27] @
     '' of '' @ [CHR 0x27] @ ''data'' @ [CHR 0x27] @
     '' as it is '' @ (if v = JNull then ''null'' else ''undefined'') @ ''.''"

text \<open>
  The \<^verbatim>\<open>message\<close> listener of the worker: the events it causes, and the backend after.
  An error thrown in the \<^verbatim>\<open>try\<close> block itself (by \<^verbatim>\<open>getConnection\<close>, or by destructuring
  \<^verbatim>\<open>data\<close>) reaches the \<^verbatim>\<open>catch\<close> block, which posts it and does nothing else. The
  call of \<^verbatim>\<open>releaseConnection\<close> follows the call of \<^verbatim>\<open>handleInsertRequest\<close> at once, while
  the first query of that function is pending.
\<close>

definition parentPort_on_message :: "job \<Rightarrow> backend \<Rightarrow> wevent list \<times> backend" where
  "parentPort_on_message message b =
     (case getConnection b of
        (Inl m, b1) \<Rightarrow> ([postMessageToParent ''error'' (Some m)], b1)
      | (Inr connection, b1) \<Rightarrow>
          if \<not> destructurable (data message)
          then ([GetConnection,
                 postMessageToParent ''error'' (Some (destructure_error (data message)))], b1)
          else
            (let cluster_id = get_prop (data message) ''cluster_id'';
                 temperature = get_prop (data message) ''temperature'';
                 humidity = get_prop (data message) ''humidity''
             in if request message = JStr ''insert''
                then
                  (let q = handleInsertRequest_query (type message) cluster_id temperature humidity
                   in case run_query q b1 of
                        (outcome, b2) \<Rightarrow>
                          (case handleInsertRequest_resume (type message) cluster_id outcome b2 of
                             (later, b3) \<Rightarrow> ([GetConnection, Query q, Release] @ later, b3)))
                else ([GetConnection, Release], b1)))"

text \<open>The completion signals among the events of a worker.\<close>

fun completions :: "wevent list \<Rightarrow> completion list" where
  "completions [] = []"
| "completions (PostMessage m # es) = m # completions es"
| "completions (e # es) = completions es"

section \<open>Invariant of the dispatcher and example data\<close>

text \<open>A worker is in order when it holds exactly one unanswered message while busy and
  none while idle.\<close>

definition worker_ok :: "worker \<Rightarrow> bool" where
  "worker_ok w = (if busy w then length (inbox w) = 1 else inbox w = [])"

text \<open>The dispatcher is in order when every worker is, and jobs wait in the queue only
  while every worker is busy.\<close>

definition dispatcher_inv :: "server \<Rightarrow> bool" where
  "dispatcher_inv s =
     (list_all worker_ok (workerPool s) \<and> (requestQueue s = [] \<or> list_all busy (workerPool s)))"

text \<open>Two jobs, a completion message and a state with every worker busy, used as
  concrete inputs.\<close>

definition job_A :: job where
  "job_A = \<lparr>type = JNum 0, request = JStr ''insert'', data = JObj [(''cluster_id'', JStr ''c1'')]\<rparr>"

definition job_B :: job where
  "job_B = \<lparr>type = JNum 1, request = JStr ''insert'',
     data = JObj [(''cluster_id'', JStr ''c1''), (''temperature'', JNum 21), (''humidity'', JNum 40)]\<rparr>"

definition all_busy_server :: server where
  "all_busy_server = initial_server\<lparr>workerPool := replicate workerPoolSize \<lparr>busy = True, inbox = [job_A]\<rparr>\<rparr>"

definition connection_lost :: completion where
  "connection_lost = \<lparr>result = ''error'', error = Some ''connection lost''\<rparr>"

text \<open>Two frames a client can send, a backend without faults and without rows, and two
  more jobs: one with an operation other than insert, one whose frame had no
  \<^verbatim>\<open>data\<close> field.\<close>

definition backend_frame :: jsval where
  "backend_frame =
     JObj [(''message_type'', JNum 0), (''channel'', JStr ''backend''), (''request'', JStr ''insert''),
           (''data'', JObj [(''cluster_id'', JStr ''c1'')])]"

definition frontend_frame :: jsval where
  "frontend_frame = JObj [(''channel'', JStr ''frontend'')]"

definition healthy_backend :: backend where
  "healthy_backend = \<lparr>cluster_records = [], sensor_records = [], faults = []\<rparr>"

definition job_update :: job where
  "job_update = \<lparr>type = JNum 0, request = JStr ''update'', data = JObj [(''cluster_id'', JStr ''c1'')]\<rparr>"

definition job_no_data :: job where
  "job_no_data = \<lparr>type = JNum 0, request = JStr ''insert'', data = JUndefined\<rparr>"



text \<open>The number of times a connection's listeners have called \<^verbatim>\<open>cleanupClient\<close> at the
  end of an execution, and the number of insert queries for a cluster identifier among
  the events of a worker.\<close>

definition cleanup_invocations :: "(closure \<times> server) option \<Rightarrow> nat" where
  "cleanup_invocations r = (case r of None \<Rightarrow> 0 | Some st \<Rightarrow> count_list (calls (fst st)) CleanupClient)"

definition insert_attempts :: "jsval \<Rightarrow> wevent list \<Rightarrow> nat" where
  "insert_attempts cluster_id es = count_list es (Query (InsertCluster cluster_id))"

section \<open>Properties of the dispatcher\<close>

lemma finAvailableWorker_Some:
  "finAvailableWorker ws = Some i \<Longrightarrow>
     i < length ws \<and> \<not> busy (ws ! i) \<and> (\<forall>k<i. busy (ws ! k))"
proof (induction ws arbitrary: i)
  case Nil
  then show ?case by simp
next
  case (Cons w ws)
  show ?case
  proof (cases "busy w")
    case False
    with Cons.prems show ?thesis by simp
  next
    case True
    with Cons.prems obtain i' where i': "finAvailableWorker ws = Some i'" "i = Suc i'"
      by auto
    from Cons.IH [OF i'(1)] True i'(2) show ?thesis
      by (auto simp: less_Suc_eq_0_disj)
  qed
qed

lemma finAvailableWorker_None:
  "finAvailableWorker ws = None \<longleftrightarrow> list_all busy ws"
  by (induction ws) auto

lemma list_all_update:
  "list_all P xs \<Longrightarrow> P x \<Longrightarrow> list_all P (xs[i := x])"
  by (induction xs arbitrary: i) (auto split: nat.splits)

lemma filter_length_update:
  "i < length ws \<Longrightarrow>
     length (filter P (ws[i := x])) + (if P (ws ! i) then 1 else 0) =
     length (filter P ws) + (if P x then 1 else 0)"
proof (induction ws arbitrary: i)
  case Nil
  then show ?case by simp
next
  case (Cons w ws)
  show ?case
  proof (cases i)
    case 0
    then show ?thesis by simp
  next
    case (Suc k)
    with Cons.prems have "k < length ws" by simp
    from Cons.IH [OF this] Suc show ?thesis by simp
  qed
qed

lemma finAvailableWorker_update:
  "list_all busy ws \<Longrightarrow> i < length ws \<Longrightarrow> \<not> busy w \<Longrightarrow> finAvailableWorker (ws[i := w]) = Some i"
proof (induction ws arbitrary: i)
  case Nil
  then show ?case by simp
next
  case (Cons v ws)
  then show ?case by (cases i) auto
qed

lemma assignWorkToWorker_idle:
  assumes "finAvailableWorker (workerPool s) = Some i"
  shows "assignWorkToWorker j s =
     s\<lparr>workerPool := (workerPool s)
          [i := (workerPool s ! i)\<lparr>inbox := inbox (workerPool s ! i) @ [j], busy := True\<rparr>],
       posted := posted s @ [(i, j)]\<rparr>"
  using assms by (simp add: assignWorkToWorker_def)

lemma assignWorkToWorker_all_busy:
  assumes "finAvailableWorker (workerPool s) = None"
  shows "assignWorkToWorker j s = s\<lparr>requestQueue := requestQueue s @ [j]\<rparr>"
  using assms by (simp add: assignWorkToWorker_def)

lemma assignWorkToWorker_inv:
  assumes "dispatcher_inv s"
  shows "dispatcher_inv (assignWorkToWorker j s)"
proof (cases "finAvailableWorker (workerPool s)")
  case None
  then have "list_all busy (workerPool s)" by (simp add: finAvailableWorker_None)
  with assms None show ?thesis
    by (simp add: assignWorkToWorker_all_busy dispatcher_inv_def)
next
  case (Some i)
  from finAvailableWorker_Some [OF Some]
  have i: "i < length (workerPool s)" and idle: "\<not> busy (workerPool s ! i)" by auto
  from assms i have "worker_ok (workerPool s ! i)"
    by (simp add: dispatcher_inv_def list_all_length)
  with idle have empty: "inbox (workerPool s ! i) = []" by (simp add: worker_ok_def)
  from idle i have "\<not> list_all busy (workerPool s)" by (auto simp: list_all_length)
  with assms have q: "requestQueue s = []" by (simp add: dispatcher_inv_def)
  have "worker_ok ((workerPool s ! i)\<lparr>inbox := inbox (workerPool s ! i) @ [j], busy := True\<rparr>)"
    using empty by (simp add: worker_ok_def)
  with assms have "list_all worker_ok ((workerPool s)
      [i := (workerPool s ! i)\<lparr>inbox := inbox (workerPool s ! i) @ [j], busy := True\<rparr>])"
    by (simp add: dispatcher_inv_def list_all_update)
  with q show ?thesis
    by (simp add: assignWorkToWorker_idle [OF Some] dispatcher_inv_def)
qed

lemma assignWorkToWorker_count:
  "busy_count (assignWorkToWorker j s) + length (requestQueue (assignWorkToWorker j s)) =
     Suc (busy_count s + length (requestQueue s))"
proof (cases "finAvailableWorker (workerPool s)")
  case None
  then show ?thesis by (simp add: assignWorkToWorker_all_busy busy_count_def)
next
  case (Some i)
  from finAvailableWorker_Some [OF Some]
  have i: "i < length (workerPool s)" and idle: "\<not> busy (workerPool s ! i)" by auto
  from filter_length_update [OF i, of busy
      "(workerPool s ! i)\<lparr>inbox := inbox (workerPool s ! i) @ [j], busy := True\<rparr>"] idle
  show ?thesis
    by (simp add: assignWorkToWorker_idle [OF Some] busy_count_def)
qed

lemma assignWorkToWorker_fifo:
  assumes "dispatcher_inv s"
  shows "map snd (posted (assignWorkToWorker j s)) @ requestQueue (assignWorkToWorker j s) =
     map snd (posted s) @ requestQueue s @ [j]"
proof (cases "finAvailableWorker (workerPool s)")
  case None
  then show ?thesis by (simp add: assignWorkToWorker_all_busy)
next
  case (Some i)
  from finAvailableWorker_Some [OF Some]
  have i: "i < length (workerPool s)" and idle: "\<not> busy (workerPool s ! i)" by auto
  then have "\<not> list_all busy (workerPool s)" by (auto simp: list_all_length)
  with assms have "requestQueue s = []" by (simp add: dispatcher_inv_def)
  then show ?thesis by (simp add: assignWorkToWorker_idle [OF Some])
qed

text \<open>The completion listener in a state of the invariant.\<close>

lemma handleWorkerMessages_inv_eq:
  assumes inv: "requestQueue s = [] \<or> list_all busy (workerPool s)" and i: "i < length (workerPool s)"
  shows "handleWorkerMessages i message s =
     (case requestQueue s of
        [] \<Rightarrow> s\<lparr>workerPool := (workerPool s)[i := (workerPool s ! i)\<lparr>busy := False\<rparr>]\<rparr>
      | j # q \<Rightarrow>
          s\<lparr>workerPool := (workerPool s)
               [i := (workerPool s ! i)\<lparr>inbox := inbox (workerPool s ! i) @ [j], busy := True\<rparr>],
            requestQueue := q,
            posted := posted s @ [(i, j)]\<rparr>)"
proof (cases "requestQueue s")
  case Nil
  then show ?thesis by (simp add: handleWorkerMessages_def)
next
  case (Cons j q)
  with inv have all: "list_all busy (workerPool s)" by simp
  have found: "finAvailableWorker ((workerPool s)[i := (workerPool s ! i)\<lparr>busy := False\<rparr>]) = Some i"
    using all i by (simp add: finAvailableWorker_update)
  show ?thesis
    using Cons i found by (simp add: handleWorkerMessages_def assignWorkToWorker_def)
qed

lemma worker_update_eq: "(w :: worker)\<lparr>inbox := xs, busy := b\<rparr> = \<lparr>busy = b, inbox = xs\<rparr>"
  by (cases w) simp

lemma completion_step:
  assumes inv: "dispatcher_inv s" and i: "i < length (workerPool s)"
    and held: "inbox (workerPool s ! i) \<noteq> []"
  shows "handleWorkerMessages i message (finish_job i s) =
     (case requestQueue s of
        [] \<Rightarrow> s\<lparr>workerPool := (workerPool s)[i := \<lparr>busy = False, inbox = []\<rparr>]\<rparr>
      | j # q \<Rightarrow>
          s\<lparr>workerPool := (workerPool s)[i := \<lparr>busy = True, inbox = [j]\<rparr>],
            requestQueue := q,
            posted := posted s @ [(i, j)]\<rparr>)"
    and "busy (workerPool s ! i)"
proof -
  from inv i have ok: "worker_ok (workerPool s ! i)"
    by (simp add: dispatcher_inv_def list_all_length)
  with held show b: "busy (workerPool s ! i)"
    by (auto simp: worker_ok_def split: if_splits)
  with ok have one: "length (inbox (workerPool s ! i)) = 1" by (simp add: worker_ok_def)
  then have tl: "tl (inbox (workerPool s ! i)) = []" by (cases "inbox (workerPool s ! i)") auto
  have inv': "requestQueue (finish_job i s) = [] \<or> list_all busy (workerPool (finish_job i s))"
    using inv b by (auto simp: dispatcher_inv_def finish_job_def intro: list_all_update)
  have i': "i < length (workerPool (finish_job i s))" using i by (simp add: finish_job_def)
  show "handleWorkerMessages i message (finish_job i s) =
     (case requestQueue s of
        [] \<Rightarrow> s\<lparr>workerPool := (workerPool s)[i := \<lparr>busy = False, inbox = []\<rparr>]\<rparr>
      | j # q \<Rightarrow>
          s\<lparr>workerPool := (workerPool s)[i := \<lparr>busy = True, inbox = [j]\<rparr>],
            requestQueue := q,
            posted := posted s @ [(i, j)]\<rparr>)"
    unfolding handleWorkerMessages_inv_eq [OF inv' i']
    using i tl by (simp add: finish_job_def worker_update_eq split: list.splits)
qed

lemma step_inv:
  assumes "dispatcher_inv s" and "step e s = Some s'"
  shows "dispatcher_inv s'"
proof (cases e)
  case (Submit j)
  with assms show ?thesis by (auto simp: assignWorkToWorker_inv)
next
  case (Completion i message)
  with assms have i: "i < length (workerPool s)" and held: "inbox (workerPool s ! i) \<noteq> []"
    and s': "s' = handleWorkerMessages i message (finish_job i s)"
    by (auto split: if_splits)
  have idle: "worker_ok \<lparr>busy = False, inbox = []\<rparr>" by (simp add: worker_ok_def)
  show ?thesis
  proof (cases "requestQueue s")
    case Nil
    with assms(1) idle show ?thesis
      unfolding s' completion_step(1) [OF assms(1) i held]
      by (simp add: dispatcher_inv_def list_all_update)
  next
    case (Cons j q)
    with assms(1) have all: "list_all busy (workerPool s)" by (simp add: dispatcher_inv_def)
    have "worker_ok \<lparr>busy = True, inbox = [j]\<rparr>" by (simp add: worker_ok_def)
    with assms(1) all Cons show ?thesis
      unfolding s' completion_step(1) [OF assms(1) i held]
      by (simp add: dispatcher_inv_def list_all_update)
  qed
qed

lemma step_count:
  assumes "dispatcher_inv s" and "step e s = Some s'"
  shows "busy_count s' + length (requestQueue s') + completed [e] =
     busy_count s + length (requestQueue s) + length (submitted [e])"
proof (cases e)
  case (Submit j)
  with assms show ?thesis by (auto simp: assignWorkToWorker_count)
next
  case (Completion i message)
  with assms have i: "i < length (workerPool s)" and held: "inbox (workerPool s ! i) \<noteq> []"
    and s': "s' = handleWorkerMessages i message (finish_job i s)"
    by (auto split: if_splits)
  note b = completion_step(2) [OF assms(1) i held]
  show ?thesis
  proof (cases "requestQueue s")
    case Nil
    from filter_length_update [OF i, of busy "\<lparr>busy = False, inbox = []\<rparr>"] b Nil Completion
    show ?thesis
      unfolding s' completion_step(1) [OF assms(1) i held]
      by (simp add: busy_count_def)
  next
    case (Cons j q)
    from filter_length_update [OF i, of busy "\<lparr>busy = True, inbox = [j]\<rparr>"] b Cons Completion
    show ?thesis
      unfolding s' completion_step(1) [OF assms(1) i held]
      by (simp add: busy_count_def)
  qed
qed

lemma step_fifo:
  assumes "dispatcher_inv s" and "step e s = Some s'"
  shows "map snd (posted s') @ requestQueue s' = map snd (posted s) @ requestQueue s @ submitted [e]"
proof (cases e)
  case (Submit j)
  with assms show ?thesis by (auto simp: assignWorkToWorker_fifo)
next
  case (Completion i message)
  with assms have i: "i < length (workerPool s)" and held: "inbox (workerPool s ! i) \<noteq> []"
    and s': "s' = handleWorkerMessages i message (finish_job i s)"
    by (auto split: if_splits)
  show ?thesis
    unfolding s' completion_step(1) [OF assms(1) i held]
    using Completion by (simp split: list.splits)
qed

lemma run_inv:
  assumes "dispatcher_inv s0" and "run evs s0 = Some s"
  shows "dispatcher_inv s"
    and "busy_count s + length (requestQueue s) + completed evs =
         busy_count s0 + length (requestQueue s0) + length (submitted evs)"
    and "map snd (posted s) @ requestQueue s = map snd (posted s0) @ requestQueue s0 @ submitted evs"
  using assms
proof (induction evs arbitrary: s0)
  case Nil
  { case 1 then show ?case by simp }
  { case 2 then show ?case by simp }
  { case 3 then show ?case by simp }
next
  case (Cons e es)
  { case 1
    then obtain s1 where s1: "step e s0 = Some s1" "run es s1 = Some s"
      by (auto split: option.splits)
    from Cons.IH(1) [OF step_inv [OF 1(1) s1(1)] s1(2)] show ?case . }
  { case 2
    then obtain s1 where s1: "step e s0 = Some s1" "run es s1 = Some s"
      by (auto split: option.splits)
    from Cons.IH(2) [OF step_inv [OF 2(1) s1(1)] s1(2)] step_count [OF 2(1) s1(1)]
    show ?case by (cases e) auto }
  { case 3
    then obtain s1 where s1: "step e s0 = Some s1" "run es s1 = Some s"
      by (auto split: option.splits)
    from Cons.IH(3) [OF step_inv [OF 3(1) s1(1)] s1(2)] step_fifo [OF 3(1) s1(1)]
    show ?case by (cases e) auto }
qed

lemma initial_server_inv: "dispatcher_inv initial_server"
  by (simp add: dispatcher_inv_def initial_server_def createWorkerPool_def workerPoolSize_def
      worker_ok_def list_all_length)

lemma initial_server_counts:
  "busy_count initial_server = 0" "requestQueue initial_server = []" "posted initial_server = []"
  by (simp_all add: busy_count_def initial_server_def createWorkerPool_def)

lemma createWorkerPool_eq:
  "createWorkerPool =
     [\<lparr>busy = False, inbox = []\<rparr>, \<lparr>busy = False, inbox = []\<rparr>, \<lparr>busy = False, inbox = []\<rparr>]"
  by (simp add: createWorkerPool_def workerPoolSize_def numeral_3_eq_3)

text \<open>
  Claim C5. Submitting a job never fails (\<open>assignWorkToWorker\<close> is total). If some worker
  is idle, the job is posted to the first idle worker in pool order, which is marked
  busy, and nothing else changes but the log of posted messages; if every worker is
  busy, the job is appended to the tail of the request queue and nothing else changes.
\<close>

theorem submit_first_idle_or_queue:
  "(\<not> list_all busy (workerPool s) \<longrightarrow>
      (\<exists>i<length (workerPool s).
         \<not> busy (workerPool s ! i) \<and> (\<forall>k<i. busy (workerPool s ! k)) \<and>
         assignWorkToWorker j s =
           s\<lparr>workerPool := (workerPool s)
                [i := (workerPool s ! i)\<lparr>inbox := inbox (workerPool s ! i) @ [j], busy := True\<rparr>],
             posted := posted s @ [(i, j)]\<rparr>)) \<and>
   (list_all busy (workerPool s) \<longrightarrow>
      assignWorkToWorker j s = s\<lparr>requestQueue := requestQueue s @ [j]\<rparr>)"
proof (cases "finAvailableWorker (workerPool s)")
  case None
  then have "list_all busy (workerPool s)" by (simp add: finAvailableWorker_None)
  with None show ?thesis by (simp add: assignWorkToWorker_all_busy)
next
  case (Some i)
  then have "\<not> list_all busy (workerPool s)"
    using finAvailableWorker_None [of "workerPool s"] by simp
  moreover from finAvailableWorker_Some [OF Some] assignWorkToWorker_idle [OF Some, of j]
  have "\<exists>i<length (workerPool s).
         \<not> busy (workerPool s ! i) \<and> (\<forall>k<i. busy (workerPool s ! k)) \<and>
         assignWorkToWorker j s =
           s\<lparr>workerPool := (workerPool s)
                [i := (workerPool s ! i)\<lparr>inbox := inbox (workerPool s ! i) @ [j], busy := True\<rparr>],
             posted := posted s @ [(i, j)]\<rparr>"
    by blast
  ultimately show ?thesis by simp
qed

theorem submit_first_idle_or_queue_witness:
  "assignWorkToWorker job_B initial_server =
     initial_server\<lparr>workerPool :=
         [\<lparr>busy = True, inbox = [job_B]\<rparr>, \<lparr>busy = False, inbox = []\<rparr>, \<lparr>busy = False, inbox = []\<rparr>],
       posted := [(0, job_B)]\<rparr> \<and>
   assignWorkToWorker job_B all_busy_server = all_busy_server\<lparr>requestQueue := [job_B]\<rparr>"
proof -
  have pool: "workerPool initial_server =
      [\<lparr>busy = False, inbox = []\<rparr>, \<lparr>busy = False, inbox = []\<rparr>, \<lparr>busy = False, inbox = []\<rparr>]"
    by (simp add: initial_server_def createWorkerPool_eq)
  have idle: "\<not> list_all busy (workerPool initial_server)" by (simp add: pool)
  with submit_first_idle_or_queue [of initial_server job_B]
  obtain i where i: "\<forall>k<i. busy (workerPool initial_server ! k)"
    and eq: "assignWorkToWorker job_B initial_server =
       initial_server\<lparr>workerPool := (workerPool initial_server)
            [i := (workerPool initial_server ! i)
               \<lparr>inbox := inbox (workerPool initial_server ! i) @ [job_B], busy := True\<rparr>],
         posted := posted initial_server @ [(i, job_B)]\<rparr>"
    by blast
  have "i = 0"
  proof (rule ccontr)
    assume "i \<noteq> 0"
    then have "0 < i" by simp
    with i have "busy (workerPool initial_server ! 0)" by blast
    then show False by (simp add: pool)
  qed
  with eq have first: "assignWorkToWorker job_B initial_server =
     initial_server\<lparr>workerPool :=
         [\<lparr>busy = True, inbox = [job_B]\<rparr>, \<lparr>busy = False, inbox = []\<rparr>, \<lparr>busy = False, inbox = []\<rparr>],
       posted := [(0, job_B)]\<rparr>"
    by (simp add: pool) (simp add: initial_server_def)
  have busy: "list_all busy (workerPool all_busy_server)"
    by (simp add: all_busy_server_def workerPoolSize_def numeral_3_eq_3)
  with submit_first_idle_or_queue [of all_busy_server job_B]
  have "assignWorkToWorker job_B all_busy_server =
      all_busy_server\<lparr>requestQueue := requestQueue all_busy_server @ [job_B]\<rparr>"
    by blast
  then have second: "assignWorkToWorker job_B all_busy_server = all_busy_server\<lparr>requestQueue := [job_B]\<rparr>"
    by (simp add: all_busy_server_def initial_server_def)
  from first second show ?thesis by simp
qed

lemma initial_server_eq:
  "initial_server =
     \<lparr>workerPool =
        [\<lparr>busy = False, inbox = []\<rparr>, \<lparr>busy = False, inbox = []\<rparr>, \<lparr>busy = False, inbox = []\<rparr>],
      requestQueue = [], channels = [(''backend'', []), (''frontend'', [])], sent = [], posted = []\<rparr>"
  by (simp add: initial_server_def createWorkerPool_eq)

text \<open>
  Claim C4. In every state reached from the initial state by submit and completion
  events, the number of busy workers plus the length of the request queue equals the
  number of jobs submitted minus the number of jobs completed, and a worker is busy
  if and only if it holds an unanswered job.
\<close>

theorem busy_plus_queue_invariant:
  assumes "run evs initial_server = Some s"
  shows "int (busy_count s) + int (length (requestQueue s)) =
           int (length (submitted evs)) - int (completed evs) \<and>
         (\<forall>w \<in> set (workerPool s). busy w \<longleftrightarrow> inbox w \<noteq> [])"
proof -
  from run_inv(2) [OF initial_server_inv assms]
  have "busy_count s + length (requestQueue s) + completed evs = length (submitted evs)"
    by (simp add: initial_server_counts)
  then have count: "int (busy_count s) + int (length (requestQueue s)) =
      int (length (submitted evs)) - int (completed evs)"
    by linarith
  from run_inv(1) [OF initial_server_inv assms]
  have "\<forall>w \<in> set (workerPool s). worker_ok w"
    by (simp add: dispatcher_inv_def list_all_iff)
  then have "\<forall>w \<in> set (workerPool s). busy w \<longleftrightarrow> inbox w \<noteq> []"
    by (auto simp: worker_ok_def split: if_splits)
  with count show ?thesis by simp
qed

lemma run_example:
  "run [Submit job_A, Submit job_B, Submit job_A, Submit job_B, Completion 0 connection_lost]
     initial_server =
   Some \<lparr>workerPool =
        [\<lparr>busy = True, inbox = [job_B]\<rparr>, \<lparr>busy = True, inbox = [job_B]\<rparr>, \<lparr>busy = True, inbox = [job_A]\<rparr>],
      requestQueue = [], channels = [(''backend'', []), (''frontend'', [])], sent = [],
      posted = [(0, job_A), (1, job_B), (2, job_A), (0, job_B)]\<rparr>"
  by (simp add: initial_server_eq assignWorkToWorker_def handleWorkerMessages_def finish_job_def)

theorem busy_plus_queue_invariant_witness:
  "\<exists>s. run [Submit job_A, Submit job_B, Submit job_A, Submit job_B, Completion 0 connection_lost]
          initial_server = Some s \<and>
       busy_count s = 3 \<and> requestQueue s = [] \<and> list_all (\<lambda>w. busy w \<and> inbox w \<noteq> []) (workerPool s)"
proof -
  let ?evs = "[Submit job_A, Submit job_B, Submit job_A, Submit job_B, Completion 0 connection_lost]"
  let ?s = "\<lparr>workerPool =
        [\<lparr>busy = True, inbox = [job_B]\<rparr>, \<lparr>busy = True, inbox = [job_B]\<rparr>, \<lparr>busy = True, inbox = [job_A]\<rparr>],
      requestQueue = [], channels = [(''backend'', []), (''frontend'', [])], sent = [],
      posted = [(0, job_A), (1, job_B), (2, job_A), (0, job_B)]\<rparr>"
  have s: "run ?evs initial_server = Some ?s" by (rule run_example)
  from busy_plus_queue_invariant [OF s]
  have count: "int (busy_count ?s) + int (length (requestQueue ?s)) = 3"
    and flags: "\<forall>w \<in> set (workerPool ?s). busy w \<longleftrightarrow> inbox w \<noteq> []"
    by simp_all
  from count have "busy_count ?s = 3" by simp
  moreover from flags have "list_all (\<lambda>w. busy w \<and> inbox w \<noteq> []) (workerPool ?s)"
    by (simp add: list_all_iff)
  ultimately show ?thesis using s by (intro exI [of _ ?s]) simp
qed

text \<open>
  Claim C6. A completion signal of worker \<open>i\<close>, whatever its result, marks the worker
  idle; if the request queue is non-empty its head is removed and posted to that same
  worker, which is busy again after the step, and the rest of the queue is left as it
  is: the finished job is not put back. The jobs posted to workers so far, in the order
  posted, followed by the queue, are the submitted jobs in submission order.
\<close>

theorem completion_reassigns_fifo:
  assumes "run evs initial_server = Some s" and "step (Completion i message) s = Some s'"
  shows "s' =
           (case requestQueue s of
              [] \<Rightarrow> s\<lparr>workerPool := (workerPool s)[i := \<lparr>busy = False, inbox = []\<rparr>]\<rparr>
            | j # q \<Rightarrow>
                s\<lparr>workerPool := (workerPool s)[i := \<lparr>busy = True, inbox = [j]\<rparr>],
                  requestQueue := q,
                  posted := posted s @ [(i, j)]\<rparr>) \<and>
         map snd (posted s) @ requestQueue s = submitted evs"
proof -
  note inv = run_inv(1) [OF initial_server_inv assms(1)]
  from assms(2) have i: "i < length (workerPool s)" and held: "inbox (workerPool s ! i) \<noteq> []"
    and s': "s' = handleWorkerMessages i message (finish_job i s)"
    by (auto split: if_splits)
  from completion_step(1) [OF inv i held, of message] s'
    run_inv(3) [OF initial_server_inv assms(1)]
  show ?thesis by (simp add: initial_server_counts)
qed

lemma run_example_queued:
  "run [Submit job_A, Submit job_A, Submit job_A, Submit job_B, Submit job_A] initial_server =
   Some \<lparr>workerPool =
        [\<lparr>busy = True, inbox = [job_A]\<rparr>, \<lparr>busy = True, inbox = [job_A]\<rparr>, \<lparr>busy = True, inbox = [job_A]\<rparr>],
      requestQueue = [job_B, job_A], channels = [(''backend'', []), (''frontend'', [])], sent = [],
      posted = [(0, job_A), (1, job_A), (2, job_A)]\<rparr>"
  by (simp add: initial_server_eq assignWorkToWorker_def)

theorem completion_reassigns_fifo_witness:
  "\<exists>s s'. run [Submit job_A, Submit job_A, Submit job_A, Submit job_B, Submit job_A] initial_server = Some s \<and>
       step (Completion 1 connection_lost) s = Some s' \<and>
       s' = s\<lparr>workerPool := (workerPool s)[1 := \<lparr>busy = True, inbox = [job_B]\<rparr>],
              requestQueue := [job_A], posted := posted s @ [(1, job_B)]\<rparr> \<and>
       map snd (posted s) @ requestQueue s = [job_A, job_A, job_A, job_B, job_A]"
proof -
  let ?evs = "[Submit job_A, Submit job_A, Submit job_A, Submit job_B, Submit job_A]"
  let ?s = "\<lparr>workerPool =
        [\<lparr>busy = True, inbox = [job_A]\<rparr>, \<lparr>busy = True, inbox = [job_A]\<rparr>, \<lparr>busy = True, inbox = [job_A]\<rparr>],
      requestQueue = [job_B, job_A], channels = [(''backend'', []), (''frontend'', [])], sent = [],
      posted = [(0, job_A), (1, job_A), (2, job_A)]\<rparr>"
  let ?s' = "handleWorkerMessages 1 connection_lost (finish_job 1 ?s)"
  have s: "run ?evs initial_server = Some ?s" by (rule run_example_queued)
  have s': "step (Completion 1 connection_lost) ?s = Some ?s'" by simp
  from completion_reassigns_fifo [OF s s']
  have "?s' = ?s\<lparr>workerPool := (workerPool ?s)[1 := \<lparr>busy = True, inbox = [job_B]\<rparr>],
              requestQueue := [job_A], posted := posted ?s @ [(1, job_B)]\<rparr>"
    and "map snd (posted ?s) @ requestQueue ?s = [job_A, job_A, job_A, job_B, job_A]"
    by simp_all
  with s s' show ?thesis by (intro exI [of _ ?s] exI [of _ ?s']) simp
qed

section \<open>Properties of the channel registry\<close>

lemma assignWorkToWorker_channels [simp]:
  "channels (assignWorkToWorker j s) = channels s"
  "sent (assignWorkToWorker j s) = sent s"
  by (simp_all add: assignWorkToWorker_def split: option.splits)

lemma map_of_push_subscriber:
  "map_of (push_subscriber channel c chs) name =
     (if name = channel then map_option (\<lambda>subs. subs @ [c]) (map_of chs name) else map_of chs name)"
  by (induction chs) (auto simp: push_subscriber_def)

lemma on_message_topic:
  assumes "destructurable v" and "get_prop v ''channel'' = JStr topic"
    and "map_of (channels s) topic = Some subs"
  shows "channels (on_message c (Some v) s) =
           (if c \<in> set subs then channels s else push_subscriber topic c (channels s))"
    and "sent (on_message c (Some v) s) =
           (if c \<in> set subs then sent s else sent s @ [(c, ''You are connected to the channel '' @ topic)])"
  using assms by (simp_all add: on_message_def Let_def)

text \<open>
  Claim C9. For a topic of the registry and a connection, a frame on that topic from a
  connection that is already a subscriber leaves the channel map unchanged and sends
  nothing; a first frame appends the connection to the topic's subscribers and sends
  the one text "You are connected to the channel " followed by the topic name. After
  a second frame on the topic the connection is in the subscriber list once, and one
  acknowledgment has been sent.
\<close>

theorem subscribe_idempotent:
  assumes topic: "map_of (channels s) topic = Some subs"
    and v: "destructurable v" "get_prop v ''channel'' = JStr topic"
    and v': "destructurable v'" "get_prop v' ''channel'' = JStr topic"
  shows "(c \<in> set subs \<longrightarrow>
            channels (on_message c (Some v) s) = channels s \<and>
            sent (on_message c (Some v) s) = sent s) \<and>
         (c \<notin> set subs \<longrightarrow>
            subscribers_of topic (on_message c (Some v) s) = subs @ [c] \<and>
            sent (on_message c (Some v) s) = sent s @ [(c, ''You are connected to the channel '' @ topic)] \<and>
            subscribers_of topic (on_message c (Some v') (on_message c (Some v) s)) = subs @ [c] \<and>
            sent (on_message c (Some v') (on_message c (Some v) s)) = sent s @ [(c, ''You are connected to the channel '' @ topic)] \<and>
            count_list (subscribers_of topic (on_message c (Some v') (on_message c (Some v) s))) c = 1)"
proof (cases "c \<in> set subs")
  case True
  with on_message_topic [OF v topic, of c] show ?thesis by simp
next
  case False
  let ?s1 = "on_message c (Some v) s"
  from False on_message_topic [OF v topic, of c]
  have ch1: "channels ?s1 = push_subscriber topic c (channels s)"
    and sent1: "sent ?s1 = sent s @ [(c, ''You are connected to the channel '' @ topic)]"
    by simp_all
  from ch1 topic have topic1: "map_of (channels ?s1) topic = Some (subs @ [c])"
    by (simp add: map_of_push_subscriber)
  from on_message_topic [OF v' topic1, of c]
  have ch2: "channels (on_message c (Some v') ?s1) = channels ?s1"
    and sent2: "sent (on_message c (Some v') ?s1) = sent ?s1"
    by simp_all
  from False have "count_list (subs @ [c]) c = 1" by (simp add: count_list_0_iff)
  with False topic1 ch2 sent1 sent2 show ?thesis
    by (simp add: subscribers_of_def)
qed

theorem subscribe_idempotent_witness:
  "subscribers_of ''frontend'' (on_message 7 (Some frontend_frame) initial_server) = [7] \<and>
   sent (on_message 7 (Some frontend_frame) initial_server) =
     [(7, ''You are connected to the channel frontend'')] \<and>
   channels (on_message 7 (Some frontend_frame) (on_message 7 (Some frontend_frame) initial_server)) =
     channels (on_message 7 (Some frontend_frame) initial_server) \<and>
   sent (on_message 7 (Some frontend_frame) (on_message 7 (Some frontend_frame) initial_server)) =
     [(7, ''You are connected to the channel frontend'')] \<and>
   count_list (subscribers_of ''frontend''
      (on_message 7 (Some frontend_frame) (on_message 7 (Some frontend_frame) initial_server))) 7 = 1"
proof -
  let ?s1 = "on_message 7 (Some frontend_frame) initial_server"
  have v: "destructurable frontend_frame" "get_prop frontend_frame ''channel'' = JStr ''frontend''"
    by (simp_all add: frontend_frame_def destructurable_def)
  have t0: "map_of (channels initial_server) ''frontend'' = Some []"
    by (simp add: initial_server_def)
  have new: "7 \<notin> set ([] :: conn list)" by simp
  from subscribe_idempotent [OF t0 v v, of 7] new
  have first: "subscribers_of ''frontend'' ?s1 = [7]"
      "sent ?s1 = sent initial_server @ [(7, ''You are connected to the channel frontend'')]"
      "sent (on_message 7 (Some frontend_frame) ?s1) =
         sent initial_server @ [(7, ''You are connected to the channel frontend'')]"
      "count_list (subscribers_of ''frontend'' (on_message 7 (Some frontend_frame) ?s1)) 7 = 1"
    by simp_all
  have t1: "map_of (channels ?s1) ''frontend'' = Some [7]"
    by (simp add: on_message_def frontend_frame_def destructurable_def initial_server_def
        push_subscriber_def)
  have old: "7 \<in> set [7 :: conn]" by simp
  from subscribe_idempotent [OF t1 v v, of 7] old
  have second: "channels (on_message 7 (Some frontend_frame) ?s1) = channels ?s1"
    by simp
  from first second show ?thesis by (simp add: initial_server_def)
qed

lemma indexOf_ge: "- 1 \<le> indexOf xs x"
  by (induction xs) (auto simp: Let_def)

lemma indexOf_absent: "indexOf xs x = - 1 \<longleftrightarrow> x \<notin> set xs"
proof (induction xs)
  case Nil
  then show ?case by simp
next
  case (Cons y ys)
  from indexOf_ge [of ys x] have "indexOf ys x + 1 \<noteq> - 1" by simp
  with Cons show ?case by (simp add: Let_def)
qed

lemma splice_indexOf:
  "x \<in> set xs \<Longrightarrow> array_splice (nat (indexOf xs x)) (Suc 0) xs = remove1 x xs"
proof (induction xs)
  case Nil
  then show ?case by simp
next
  case (Cons y ys)
  show ?case
  proof (cases "y = x")
    case True
    then show ?thesis by (simp add: array_splice_def)
  next
    case False
    with Cons.prems have in_ys: "x \<in> set ys" by simp
    then have "indexOf ys x \<noteq> - 1" by (simp add: indexOf_absent)
    with indexOf_ge [of ys x] have nonneg: "0 \<le> indexOf ys x" by linarith
    then have "nat (indexOf ys x + 1) = Suc (nat (indexOf ys x))" by simp
    with Cons.IH [OF in_ys] False in_ys show ?thesis
      by (simp add: array_splice_def Let_def indexOf_absent)
  qed
qed

text \<open>
  What the loop of \<open>cleanupClient\<close> does: the connection is removed from the first
  subscriber array that holds it, and the arrays after that one are left as they are.
  A connection subscribed to at most one topic is therefore removed everywhere.
\<close>

lemma cleanupClient_loop_eq:
  "cleanupClient_loop c chs =
     (case chs of
        [] \<Rightarrow> []
      | (name, subscribers) # rest \<Rightarrow>
          if c \<in> set subscribers then (name, remove1 c subscribers) # rest
          else (name, subscribers) # cleanupClient_loop c rest)"
  by (cases chs) (auto simp: Let_def indexOf_absent splice_indexOf)

lemma cleanupClient_loop_single_topic:
  assumes "\<forall>ch \<in> set chs. distinct (snd ch)"
    and "length (filter (\<lambda>ch. c \<in> set (snd ch)) chs) \<le> 1"
  shows "\<forall>ch \<in> set (cleanupClient_loop c chs). c \<notin> set (snd ch)"
  using assms
proof (induction chs)
  case Nil
  then show ?case by simp
next
  case (Cons ch chs)
  obtain name subscribers where ch: "ch = (name, subscribers)" by (cases ch)
  show ?case
  proof (cases "c \<in> set subscribers")
    case True
    with Cons.prems ch have "\<forall>ch \<in> set chs. c \<notin> set (snd ch)"
      by (auto simp: filter_empty_conv)
    moreover from Cons.prems(1) ch have "c \<notin> set (remove1 c subscribers)" by simp
    ultimately show ?thesis using True ch
      by (subst cleanupClient_loop_eq) simp
  next
    case False
    with Cons.prems ch have "\<forall>ch \<in> set chs. distinct (snd ch)"
      and "length (filter (\<lambda>ch. c \<in> set (snd ch)) chs) \<le> 1"
      by auto
    from Cons.IH [OF this] False ch show ?thesis
      by (subst cleanupClient_loop_eq) simp
  qed
qed

text \<open>
  Claim C1. A connection that has sent a frame on the topic backend and one on the
  topic frontend is a subscriber of both. \<open>cleanupClient\<close> removes it from backend, the
  first topic of the map, and leaves the loop: the connection is still a subscriber of
  frontend afterwards.
\<close>

theorem cleanupClient_stops_at_first_topic:
  "channels (cleanupClient 7
      (on_message 7 (Some frontend_frame) (on_message 7 (Some backend_frame) initial_server))) =
     [(''backend'', []), (''frontend'', [7])]"
  by (simp add: cleanupClient_def on_message_def backend_frame_def frontend_frame_def
      destructurable_def initial_server_def push_subscriber_def array_splice_def)

section \<open>Properties of the connection supervisor\<close>

lemma conn_step_cleanups:
  assumes "conn_step c e st = Some st'"
  shows "count_list (calls (fst st')) CleanupClient + (if heartbeat (fst st') then 1 else 0) =
         count_list (calls (fst st)) CleanupClient + (if heartbeat (fst st) then 1 else 0) +
         (if e = Close then 1 else 0)"
  using assms
  by (cases e; cases st)
     (auto simp: heartbeat_tick_def on_pong_def on_close_def split: if_splits)

lemma conn_run_cleanups:
  assumes "conn_run c evs st = Some st'"
  shows "count_list (calls (fst st')) CleanupClient + (if heartbeat (fst st') then 1 else 0) =
         count_list (calls (fst st)) CleanupClient + (if heartbeat (fst st) then 1 else 0) +
         count_list evs Close"
  using assms
proof (induction evs arbitrary: st)
  case Nil
  then show ?case by simp
next
  case (Cons e es)
  then obtain st1 where st1: "conn_step c e st = Some st1" "conn_run c es st1 = Some st'"
    by (auto split: option.splits)
  from Cons.IH [OF st1(2)] conn_step_cleanups [OF st1(1)] show ?case by simp
qed

text \<open>
  Claim C8, as amended. In every execution of a connection, the cleanup is called once
  by each close event and once by the timer callback that finds the liveness flag unset
  (which clears the timer, so this happens at most once): the number of calls is the
  number of close events, plus one if the timer has been cleared.
\<close>

theorem cleanup_once_per_close_and_termination:
  assumes "conn_run c evs (handleSocketConnection, s0) = Some (cl, s)"
  shows "count_list (calls cl) CleanupClient =
           count_list evs Close + (if heartbeat cl then 0 else 1)"
  using conn_run_cleanups [OF assms] by (simp add: handleSocketConnection_def split: if_splits)

theorem cleanup_once_per_close_and_termination_witness:
  "\<exists>cl s. conn_run 7 [Tick, Close, Tick] (handleSocketConnection, initial_server) = Some (cl, s) \<and>
      \<not> heartbeat cl \<and> count_list (calls cl) CleanupClient = 2"
proof -
  obtain cl s where r: "conn_run 7 [Tick, Close, Tick] (handleSocketConnection, initial_server) = Some (cl, s)"
    by (simp add: handleSocketConnection_def heartbeat_tick_def on_close_def)
  then have h: "\<not> heartbeat cl"
    by (auto simp: handleSocketConnection_def heartbeat_tick_def on_close_def)
  from cleanup_once_per_close_and_termination [OF r] h
  have "count_list (calls cl) CleanupClient = 2" by simp
  with r h show ?thesis by blast
qed

text \<open>
  Claim C8, as stated, fails. The close listener does not clear the timer: a connection
  that is probed, closes without answering, and is found silent at the next period has
  the cleanup called twice. So has a connection that the timer callback terminates and
  whose transport then reports the close.
\<close>

theorem cleanup_twice_counterexample:
  "cleanup_invocations (conn_run 7 [Tick, Close, Tick] (handleSocketConnection, initial_server)) = 2 \<and>
   cleanup_invocations (conn_run 7 [Tick, Tick, Close] (handleSocketConnection, initial_server)) = 2"
  by (simp add: cleanup_invocations_def handleSocketConnection_def heartbeat_tick_def on_close_def)

text \<open>
  From an armed timer, a connection that does not answer is terminated at the second
  firing of the timer when its liveness flag was set, and at the first when it was not:
  the timer is cleared, the transport terminated and the cleanup called.
\<close>

lemma silent_ticks_terminate:
  assumes "heartbeat cl"
  shows "isAlive cl \<Longrightarrow>
           conn_run c [Tick, Tick] (cl, s) =
             Some (cl\<lparr>isAlive := False, heartbeat := False,
                      calls := calls cl @ [Ping, ClearInterval, Terminate, CleanupClient]\<rparr>,
                   cleanupClient c s)"
    and "\<not> isAlive cl \<Longrightarrow>
           conn_run c [Tick] (cl, s) =
             Some (cl\<lparr>heartbeat := False, calls := calls cl @ [ClearInterval, Terminate, CleanupClient]\<rparr>,
                   cleanupClient c s)"
  using assms by (simp_all add: heartbeat_tick_def)












section \<open>Properties of the worker\<close>

lemma kind0_insert_events:
  assumes "faults b = []"
    and "type message = JNum 0" and "request message = JStr ''insert''"
    and "destructurable (data message)" and "get_prop (data message) ''cluster_id'' = cid"
  shows "parentPort_on_message message b =
     (if cid \<in> set (cluster_records b)
      then ([GetConnection, Query (SelectCluster cid), Release, postMessageToParent ''success'' None], b)
      else ([GetConnection, Query (SelectCluster cid), Release, Query (InsertCluster cid),
             postMessageToParent ''success'' None],
            b\<lparr>cluster_records := cluster_records b @ [cid]\<rparr>))"
proof -
  have rows: "(filter (\<lambda>r. r = cid) (cluster_records b) = []) = (cid \<notin> set (cluster_records b))"
    by (auto simp: filter_empty_conv)
  from assms show ?thesis
    by (simp add: parentPort_on_message_def getConnection_def next_fault_def run_query_def
        handleInsertRequest_query_def handleInsertRequest_resume_def rows)
qed

text \<open>
  Claim C10. With a backend that does not fail, a kind-0 insert job whose cluster
  identifier is not in the table makes exactly one insert attempt for that identifier,
  and a second kind-0 insert job with the same identifier, processed after it, makes
  none: the table holds the identifier once.
\<close>

theorem kind0_insert_idempotent:
  assumes "faults b = []" and "JStr cid \<notin> set (cluster_records b)"
    and "type m1 = JNum 0" and "request m1 = JStr ''insert''"
    and "destructurable (data m1)" and "get_prop (data m1) ''cluster_id'' = JStr cid"
    and "type m2 = JNum 0" and "request m2 = JStr ''insert''"
    and "destructurable (data m2)" and "get_prop (data m2) ''cluster_id'' = JStr cid"
  shows "insert_attempts (JStr cid) (fst (parentPort_on_message m1 b)) = 1 \<and>
         insert_attempts (JStr cid)
           (fst (parentPort_on_message m2 (snd (parentPort_on_message m1 b)))) = 0 \<and>
         cluster_records (snd (parentPort_on_message m2 (snd (parentPort_on_message m1 b)))) =
           cluster_records b @ [JStr cid]"
proof -
  let ?b1 = "b\<lparr>cluster_records := cluster_records b @ [JStr cid]\<rparr>"
  from kind0_insert_events [OF assms(1) assms(3-6)] assms(2)
  have first: "parentPort_on_message m1 b =
      ([GetConnection, Query (SelectCluster (JStr cid)), Release, Query (InsertCluster (JStr cid)),
        postMessageToParent ''success'' None], ?b1)"
    by simp
  have "faults ?b1 = []" using assms(1) by simp
  from kind0_insert_events [OF this assms(7-10)]
  have second: "parentPort_on_message m2 ?b1 =
      ([GetConnection, Query (SelectCluster (JStr cid)), Release, postMessageToParent ''success'' None], ?b1)"
    by simp
  show ?thesis
    unfolding first snd_conv fst_conv second
    by (simp add: insert_attempts_def postMessageToParent_def)
qed

theorem kind0_insert_idempotent_witness:
  "insert_attempts (JStr ''c1'') (fst (parentPort_on_message job_A healthy_backend)) = 1 \<and>
   insert_attempts (JStr ''c1'')
     (fst (parentPort_on_message job_A (snd (parentPort_on_message job_A healthy_backend)))) = 0 \<and>
   cluster_records (snd (parentPort_on_message job_A (snd (parentPort_on_message job_A healthy_backend)))) =
     [JStr ''c1'']"
proof -
  have b: "faults healthy_backend = []" "JStr ''c1'' \<notin> set (cluster_records healthy_backend)"
    by (simp_all add: healthy_backend_def)
  have m: "type job_A = JNum 0" "request job_A = JStr ''insert''" "destructurable (data job_A)"
      "get_prop (data job_A) ''cluster_id'' = JStr ''c1''"
    by (simp_all add: job_A_def destructurable_def)
  from kind0_insert_idempotent [OF b m m] show ?thesis by (simp add: healthy_backend_def)
qed

text \<open>
  A worker posts at most one completion signal for a message.
\<close>

lemma resume_at_most_one_completion:
  "length (completions (fst (handleInsertRequest_resume kind cid outcome b))) \<le> 1"
  by (auto simp: handleInsertRequest_resume_def postMessageToParent_def split: sum.splits prod.splits)

lemma worker_at_most_one_completion:
  "length (completions (fst (parentPort_on_message message b))) \<le> 1"
proof -
  obtain r b1 where g: "getConnection b = (r, b1)" by (cases "getConnection b")
  show ?thesis
  proof (cases r)
    case (Inl m)
    with g show ?thesis by (simp add: parentPort_on_message_def postMessageToParent_def)
  next
    case (Inr u)
    show ?thesis
    proof (cases "destructurable (data message) \<and> request message = JStr ''insert''")
      case False
      with g Inr show ?thesis
        by (auto simp: parentPort_on_message_def postMessageToParent_def)
    next
      case True
      let ?cid = "get_prop (data message) ''cluster_id''"
      let ?q = "handleInsertRequest_query (type message) ?cid
          (get_prop (data message) ''temperature'') (get_prop (data message) ''humidity'')"
      obtain outcome b2 where q: "run_query ?q b1 = (outcome, b2)" by (cases "run_query ?q b1")
      obtain later b3 where l: "handleInsertRequest_resume (type message) ?cid outcome b2 = (later, b3)"
        by (cases "handleInsertRequest_resume (type message) ?cid outcome b2")
      from resume_at_most_one_completion [of "type message" ?cid outcome b2] l
      have "length (completions later) \<le> 1" by simp
      with g Inr True q l show ?thesis
        by (simp add: parentPort_on_message_def)
    qed
  qed
qed

text \<open>
  Claim C2. For a job whose operation is not insert, the worker acquires and releases
  the handle and posts no completion signal. For an insert job whose query fails, the
  error rejects the promise of \<^verbatim>\<open>handleInsertRequest\<close>, which was not awaited: the
  catch block does not see it and no completion signal is posted either.
\<close>

theorem worker_posts_no_completion:
  "completions (fst (parentPort_on_message job_update healthy_backend)) = [] \<and>
   fst (parentPort_on_message job_update healthy_backend) = [GetConnection, Release] \<and>
   completions (fst (parentPort_on_message job_A
      (healthy_backend\<lparr>faults := [None, Some ''connection lost'']\<rparr>))) = [] \<and>
   fst (parentPort_on_message job_A (healthy_backend\<lparr>faults := [None, Some ''connection lost'']\<rparr>)) =
     [GetConnection, Query (SelectCluster (JStr ''c1'')), Release, UnhandledRejection ''connection lost'']"
  by (simp add: parentPort_on_message_def getConnection_def next_fault_def run_query_def
      handleInsertRequest_query_def handleInsertRequest_resume_def healthy_backend_def
      job_update_def job_A_def destructurable_def)

text \<open>
  Claim C3. For a job without data, destructuring throws after the handle was acquired;
  the catch block posts the error and does not release the handle.
\<close>

theorem worker_keeps_handle_on_error:
  "fst (parentPort_on_message job_no_data healthy_backend) =
     [GetConnection, postMessageToParent ''error'' (Some (destructure_error JUndefined))] \<and>
   Release \<notin> set (fst (parentPort_on_message job_no_data healthy_backend))"
  by (simp add: parentPort_on_message_def getConnection_def next_fault_def healthy_backend_def
      job_no_data_def destructurable_def postMessageToParent_def)

end
